theory Spec2Isabelle
  imports Main "HOL-Library.Product_Lexorder"
begin

section \<open>Strings and the DNA alphabet\<close>

text \<open>
  Python strings are modelled as ASCII strings (\<open>char list\<close>). \<open>str.upper()\<close> maps the
  letters a..z to A..Z and leaves every other character alone. A symbol handed to
  \<open>step\<close> is a Python \<open>str\<close> of any length, so it is a \<open>string\<close> here; the characters
  of a scanned sequence are handed over as one-character strings.
\<close>

datatype py_error = IndexError | KeyError | ValueError string

definition upper_char :: "char \<Rightarrow> char" where
  "upper_char c =
     (let k = (of_char c :: nat) in if 97 \<le> k \<and> k \<le> 122 then char_of (k - 32) else c)"

definition upper :: "string \<Rightarrow> string" where
  "upper s = map upper_char s"

section \<open>The linear-chain engine (automata\_engine.py, class DFA)\<close>

record dfa =
  pattern :: string
  alphabet :: "string list"
  transitions :: "(nat \<times> string) \<rightharpoonup> nat"
  current_state :: nat

text \<open>
  \<open>_build_linear_chain\<close>: the two nested loops that fill the transition dictionary.
  State identifiers are the indices \<open>range(n)\<close> and the targets \<open>0\<close>, \<open>1\<close>, \<open>i + 1\<close>, hence
  natural numbers.
\<close>

definition chain_target :: "string \<Rightarrow> nat \<Rightarrow> string \<Rightarrow> nat" where
  "chain_target p i symb =
     (let n = length p; current_char = [p ! i] in
      if symb = current_char then (if i = n - 1 then 0 else i + 1)
      else (if symb = [p ! 0] \<and> i \<noteq> 0 then 1 else 0))"

definition set_transition :: "nat \<Rightarrow> string \<Rightarrow> nat \<Rightarrow> dfa \<Rightarrow> dfa" where
  "set_transition i symb t d = d\<lparr>transitions := (transitions d)((i, symb) \<mapsto> t)\<rparr>"

definition build_linear_chain :: "dfa \<Rightarrow> dfa" where
  "build_linear_chain d =
     (let n = length (pattern d) in
      if n = 0 then fold (\<lambda>symb. set_transition 0 symb 0) (alphabet d) d
      else fold (\<lambda>i. fold (\<lambda>symb. set_transition i symb (chain_target (pattern d) i symb))
                   (alphabet d)) [0..<n] d)"

definition DFA_init :: "string \<Rightarrow> dfa" where
  "DFA_init pat =
     build_linear_chain
       \<lparr>pattern = upper pat, alphabet = [''A'', ''T'', ''G'', ''C''],
        transitions = Map.empty, current_state = 0\<rparr>"

definition DFA_reset :: "dfa \<Rightarrow> dfa" where
  "DFA_reset d = d\<lparr>current_state := 0\<rparr>"

text \<open>
  \<open>step\<close>. The accept flag is the Python expression
  \<open>current_state == len(pattern) - 1 and next_state == 0 and symbol == pattern[-1]\<close>;
  \<open>and\<close> evaluates its right operand only when the left one is true, and \<open>pattern[-1]\<close>
  raises IndexError on the empty pattern. The result is the engine after the step, the
  new current state and the accept flag; the narration string (an f-string over
  integers and strings) is not modelled.
\<close>

definition last_char :: "string \<Rightarrow> py_error + string" where
  "last_char p = (case p of [] \<Rightarrow> Inl IndexError | _ \<Rightarrow> Inr [last p])"

definition is_match_expr :: "dfa \<Rightarrow> nat \<Rightarrow> string \<Rightarrow> py_error + bool" where
  "is_match_expr d next_state symbol =
     (if int (current_state d) = int (length (pattern d)) - 1 then
        (if next_state = 0 then
           (case last_char (pattern d) of Inl e \<Rightarrow> Inl e | Inr c \<Rightarrow> Inr (symbol = c))
         else Inr False)
      else Inr False)"

definition DFA_step :: "dfa \<Rightarrow> string \<Rightarrow> py_error + (dfa \<times> nat \<times> bool)" where
  "DFA_step d symbol0 =
     (let symbol = upper symbol0 in
      if symbol \<in> set (alphabet d) then
        (let next_state = (case transitions d (current_state d, symbol) of
                             None \<Rightarrow> 0 | Some ns \<Rightarrow> ns) in
         case is_match_expr d next_state symbol of
           Inl e \<Rightarrow> Inl e
         | Inr is_match \<Rightarrow> Inr (d\<lparr>current_state := next_state\<rparr>, next_state, is_match))
      else Inr (d, current_state d, False))"

text \<open>
  \<open>find_all_matches\<close>: reset, one \<open>step\<close> per character with the index \<open>i\<close> of
  \<open>enumerate\<close>, a window \<open>(i - len(pattern) + 1, i)\<close> appended at every accept flag, reset
  again. Window bounds are Python integers.
\<close>

fun DFA_scan :: "dfa \<Rightarrow> nat \<Rightarrow> string \<Rightarrow> (int \<times> int) list \<Rightarrow> py_error + (dfa \<times> (int \<times> int) list)" where
  "DFA_scan d i [] matches = Inr (d, matches)"
| "DFA_scan d i (base # rest) matches =
     (case DFA_step d [base] of
        Inl e \<Rightarrow> Inl e
      | Inr (d', _, is_match) \<Rightarrow>
          DFA_scan d' (i + 1) rest
            (if is_match then matches @ [(int i - int (length (pattern d')) + 1, int i)]
             else matches))"

definition DFA_find_all_matches :: "dfa \<Rightarrow> string \<Rightarrow> py_error + (dfa \<times> (int \<times> int) list)" where
  "DFA_find_all_matches d dna_sequence =
     (case DFA_scan (DFA_reset d) 0 dna_sequence [] of
        Inl e \<Rightarrow> Inl e
      | Inr (d', matches) \<Rightarrow> Inr (DFA_reset d', matches))"

text \<open>The value \<open>find_all_matches\<close> returns: the list of windows, or the exception.\<close>

definition DFA_matches :: "dfa \<Rightarrow> string \<Rightarrow> py_error + (int \<times> int) list" where
  "DFA_matches d dna_sequence =
     (case DFA_find_all_matches d dna_sequence of Inl e \<Rightarrow> Inl e | Inr (_, matches) \<Rightarrow> Inr matches)"

text \<open>
  The inclusive window \<open>s[a .. b]\<close> of a sequence (Python's \<open>s[a : b + 1]\<close> for
  \<open>0 \<le> a\<close>), and the test whether a character of a sequence is a base in either case,
  which is the test \<open>symbol.upper() in self.alphabet\<close> of \<open>step\<close> on the four-letter
  alphabet.
\<close>

definition window :: "string \<Rightarrow> int \<Rightarrow> int \<Rightarrow> string" where
  "window s a b = take (nat (b - a + 1)) (drop (nat a) s)"

definition is_base :: "char \<Rightarrow> bool" where
  "is_base c = (upper [c] \<in> set [''A'', ''T'', ''G'', ''C''])"

section \<open>The palindrome engine (pda\_engine.py, class PDA)\<close>

text \<open>
  \<open>_comp\<close>, a dictionary lookup with default \<open>"?"\<close> (named \<open>complement\<close> here: \<open>comp\<close> is
  HOL's function composition).
\<close>

definition complement :: "char \<Rightarrow> char" where
  "complement base =
     (case map_of [(CHR ''A'', CHR ''T''), (CHR ''T'', CHR ''A''),
                   (CHR ''G'', CHR ''C''), (CHR ''C'', CHR ''G'')] base of
        None \<Rightarrow> CHR ''?'' | Some b \<Rightarrow> b)"

text \<open>
  The engine's own fields. The base class \<open>BaseAutomaton\<close> is not part of the sources at
  hand; none of the methods below reads a field it may add beyond the pattern.
\<close>

record pda =
  pda_pattern :: string
  min_len :: int
  stack :: "string list"
  pos :: int
  mode :: string

definition PDA_init :: "string \<Rightarrow> int \<Rightarrow> pda" where
  "PDA_init pat min_len0 =
     \<lparr>pda_pattern = pat, min_len = max 2 min_len0, stack = [], pos = 0, mode = ''push''\<rparr>"

definition PDA_reset :: "pda \<Rightarrow> pda" where
  "PDA_reset p = p\<lparr>stack := [], pos := 0, mode := ''push''\<rparr>"

text \<open>\<open>step\<close>: push, and drop the oldest entry once more than 8 are held.\<close>

definition PDA_step :: "pda \<Rightarrow> string \<Rightarrow> pda \<times> string \<times> bool" where
  "PDA_step p symbol0 =
     (let symbol = upper symbol0;
          stack1 = stack p @ [symbol];
          pos1 = pos p + 1 in
      if length stack1 > 8
      then (p\<lparr>stack := tl stack1, pos := pos1, mode := ''pop''\<rparr>, ''pop'', False)
      else (p\<lparr>stack := stack1, pos := pos1, mode := ''push''\<rparr>, ''push'', False))"

text \<open>
  The \<open>while\<close> loop of the local function \<open>expand\<close>. The conjunction is evaluated left to
  right; \<open>s[l]\<close> with \<open>len(s) \<le> l\<close> raises IndexError (the guard \<open>r < n\<close> covers \<open>s[r]\<close>).
\<close>

function expand_loop :: "string \<Rightarrow> int \<Rightarrow> int \<Rightarrow> py_error + (int \<times> int)" where
  "expand_loop s l r =
     (if l \<ge> 0 \<and> r < int (length s) then
        (if l \<ge> int (length s) then Inl IndexError
         else if complement (s ! nat l) = s ! nat r then expand_loop s (l - 1) (r + 1)
         else Inr (l, r))
      else Inr (l, r))"
  by pat_completeness auto
termination
  by (relation "measure (\<lambda>(s, l, r). nat (l + 1))") auto

declare expand_loop.simps [simp del]

definition expand :: "string \<Rightarrow> int \<Rightarrow> int \<Rightarrow> int \<Rightarrow> (int \<times> int) list \<Rightarrow> py_error + (int \<times> int) list" where
  "expand s minlen l r matches =
     (case expand_loop s l r of
        Inl e \<Rightarrow> Inl e
      | Inr (l', r') \<Rightarrow>
          (let L = l' + 1; R = r' - 1 in
           Inr (if R - L + 1 \<ge> minlen then matches @ [(L, R)] else matches)))"

text \<open>The loop \<open>for i in range(n - 1): expand(i, i + 1)\<close>.\<close>

fun expand_centers :: "string \<Rightarrow> int \<Rightarrow> int list \<Rightarrow> (int \<times> int) list \<Rightarrow> py_error + (int \<times> int) list" where
  "expand_centers s minlen [] matches = Inr matches"
| "expand_centers s minlen (i # rest) matches =
     (case expand s minlen i (i + 1) matches of
        Inl e \<Rightarrow> Inl e
      | Inr matches' \<Rightarrow> expand_centers s minlen rest matches')"

text \<open>
  \<open>find_all_matches\<close> reads \<open>min_len\<close> only and writes no field; \<open>sorted(set(matches))\<close>
  orders the pairs lexicographically.
\<close>

definition PDA_find_all_matches :: "pda \<Rightarrow> string \<Rightarrow> py_error + (int \<times> int) list" where
  "PDA_find_all_matches p sequence =
     (let s = upper sequence; n = int (length s) in
      case expand_centers s (min_len p) [0..n - 2] [] of
        Inl e \<Rightarrow> Inl e
      | Inr matches \<Rightarrow> Inr (sorted_list_of_set (set matches)))"

section \<open>The shared interface of the engines\<close>

text \<open>
  The engines whose classes are at hand, behind the interface the callers use:
  \<open>reset()\<close>, \<open>step(symbol)\<close> and \<open>find_all_matches(sequence)\<close>. A call returns the engine
  after the call beside its result.
\<close>

datatype engine = DFA_engine dfa | PDA_engine pda

datatype state_repr = State_id nat | Control_mode string

fun engine_reset :: "engine \<Rightarrow> engine" where
  "engine_reset (DFA_engine d) = DFA_engine (DFA_reset d)"
| "engine_reset (PDA_engine p) = PDA_engine (PDA_reset p)"

fun engine_step :: "engine \<Rightarrow> string \<Rightarrow> py_error + (engine \<times> state_repr \<times> bool)" where
  "engine_step (DFA_engine d) symbol =
     (case DFA_step d symbol of
        Inl e \<Rightarrow> Inl e
      | Inr (d', q, is_match) \<Rightarrow> Inr (DFA_engine d', State_id q, is_match))"
| "engine_step (PDA_engine p) symbol =
     (case PDA_step p symbol of (p', m, is_match) \<Rightarrow> Inr (PDA_engine p', Control_mode m, is_match))"

fun engine_find_all_matches :: "engine \<Rightarrow> string \<Rightarrow> py_error + (engine \<times> (int \<times> int) list)" where
  "engine_find_all_matches (DFA_engine d) sequence =
     (case DFA_find_all_matches d sequence of
        Inl e \<Rightarrow> Inl e
      | Inr (d', matches) \<Rightarrow> Inr (DFA_engine d', matches))"
| "engine_find_all_matches (PDA_engine p) sequence =
     (case PDA_find_all_matches p sequence of
        Inl e \<Rightarrow> Inl e
      | Inr matches \<Rightarrow> Inr (PDA_engine p, matches))"

section \<open>The factory (automata\_factory.py)\<close>

text \<open>
  The type tags \<open>AutomataType.*\<close> and the classes \<open>NFA\<close> and \<open>EpsilonNFA\<close> are imported
  from modules that are not part of the sources at hand: the tags and the two
  constructors are parameters. The dictionary literal is built key by key, a later
  key replacing an equal earlier one, and its values are the \<open>lambda\<close>s that construct
  the engine on demand.
\<close>

record ('n, 'e) environment =
  type_DFA :: string
  type_NFA :: string
  type_ENFA :: string
  type_PDA :: string
  NFA_new :: "string \<Rightarrow> py_error + 'n"
  EpsilonNFA_new :: "string \<Rightarrow> py_error + 'e"

datatype ('n, 'e) automaton = Engine engine | NFA_instance 'n | EpsilonNFA_instance 'e

definition automaton_map ::
    "('n, 'e) environment \<Rightarrow> string \<Rightarrow> string \<rightharpoonup> (unit \<Rightarrow> py_error + ('n, 'e) automaton)" where
  "automaton_map env pat =
     [type_DFA env \<mapsto> (\<lambda>_. Inr (Engine (DFA_engine (DFA_init pat)))),
      type_NFA env \<mapsto> (\<lambda>_. map_sum id NFA_instance (NFA_new env pat)),
      type_ENFA env \<mapsto> (\<lambda>_. map_sum id EpsilonNFA_instance (EpsilonNFA_new env pat)),
      type_PDA env \<mapsto>
        (\<lambda>_. Inr (Engine (PDA_engine (PDA_init (if pat = [] then ''PALINDROME'' else pat) 4))))]"

definition create_automaton ::
    "('n, 'e) environment \<Rightarrow> string \<Rightarrow> string \<Rightarrow> py_error + ('n, 'e) automaton" where
  "create_automaton env automata_type pat =
     (if automata_type \<notin> dom (automaton_map env pat)
      then Inl (ValueError (''Unsupported automata type: '' @ automata_type))
      else (case automaton_map env pat automata_type of
              None \<Rightarrow> Inl KeyError
            | Some ctor \<Rightarrow> ctor ()))"

section \<open>Notions used to state and prove the properties\<close>

text \<open>
  Driving an engine by hand: one \<open>step\<close> per character of a sequence, as a caller of
  \<open>step\<close> does between two resets.
\<close>

fun DFA_run :: "dfa \<Rightarrow> string \<Rightarrow> py_error + dfa" where
  "DFA_run d [] = Inr d"
| "DFA_run d (base # rest) =
     (case DFA_step d [base] of Inl e \<Rightarrow> Inl e | Inr (d', _, _) \<Rightarrow> DFA_run d' rest)"

text \<open>
  The state and the accept flag a \<open>step\<close> produces, as total functions; \<open>DFA_step_eq\<close>
  below shows that \<open>step\<close> returns exactly these and never raises.
\<close>

definition step_state :: "dfa \<Rightarrow> string \<Rightarrow> nat" where
  "step_state d symbol0 =
     (if upper symbol0 \<in> set (alphabet d)
      then (case transitions d (current_state d, upper symbol0) of None \<Rightarrow> 0 | Some ns \<Rightarrow> ns)
      else current_state d)"

definition step_accept :: "dfa \<Rightarrow> string \<Rightarrow> bool" where
  "step_accept d symbol0 =
     (upper symbol0 \<in> set (alphabet d) \<and> Suc (current_state d) = length (pattern d) \<and>
      step_state d symbol0 = 0 \<and> upper symbol0 = [last (pattern d)])"

fun run_state :: "dfa \<Rightarrow> string \<Rightarrow> nat" where
  "run_state d [] = current_state d"
| "run_state d (base # rest) = run_state (d\<lparr>current_state := step_state d [base]\<rparr>) rest"

fun scan_matches :: "dfa \<Rightarrow> nat \<Rightarrow> string \<Rightarrow> (int \<times> int) list" where
  "scan_matches d i [] = []"
| "scan_matches d i (base # rest) =
     (if step_accept d [base] then [(int i - int (length (pattern d)) + 1, int i)] else []) @
     scan_matches (d\<lparr>current_state := step_state d [base]\<rparr>) (i + 1) rest"

text \<open>The bases of a sequence in upper case: the symbols a scan does not skip.\<close>

definition bases :: "string \<Rightarrow> string" where
  "bases s = map upper_char (filter is_base s)"

text \<open>
  What \<open>_build_linear_chain\<close> establishes for a non-empty pattern and what \<open>step\<close> and
  \<open>reset\<close> keep: the four-letter alphabet and the chain's transition table.
\<close>

definition chain_table :: "dfa \<Rightarrow> bool" where
  "chain_table d =
     (alphabet d = [''A'', ''T'', ''G'', ''C''] \<and>
      list_all (\<lambda>i. list_all (\<lambda>symb. transitions d (i, symb) = Some (chain_target (pattern d) i symb))
                       [''A'', ''T'', ''G'', ''C''])
               [0..<length (pattern d)])"

text \<open>
  The prefix invariant of the chain: in state \<open>q\<close> the last \<open>q\<close> bases consumed are the
  first \<open>q\<close> characters of the pattern.
\<close>

definition prefix_inv :: "string \<Rightarrow> nat \<Rightarrow> string \<Rightarrow> bool" where
  "prefix_inv p q w = (q < length p \<and> q \<le> length w \<and> drop (length w - q) w = take q p)"

text \<open>
  An accept signal at index \<open>j\<close> of a scanned sequence, as the chain sees it: the
  character at \<open>j\<close> is a base and the last \<open>length p\<close> bases up to and including it spell
  the pattern \<open>p\<close>.
\<close>

definition match_at :: "string \<Rightarrow> string \<Rightarrow> nat \<Rightarrow> bool" where
  "match_at p s j =
     (j < length s \<and> is_base (s ! j) \<and> length p \<le> length (bases (take (Suc j) s)) \<and>
      drop (length (bases (take (Suc j) s)) - length p) (bases (take (Suc j) s)) = p)"

text \<open>
  A complement palindrome: the inclusive window \<open>s[a .. b]\<close> lies inside \<open>s\<close> and, at every
  offset, the complement of the character counted from the left is the character counted
  from the right.
\<close>

definition complement_window :: "string \<Rightarrow> int \<Rightarrow> int \<Rightarrow> bool" where
  "complement_window s a b =
     (0 \<le> a \<and> b < int (length s) \<and>
      (\<forall>t\<in>{0..b - a}. complement (s ! nat (a + t)) = s ! nat (b - t)))"

section \<open>The linear-chain engine: what a step and a scan compute\<close>

lemma is_match_expr_eq:
  "is_match_expr d ns s =
     Inr (Suc (current_state d) = length (pattern d) \<and> ns = 0 \<and> s = [last (pattern d)])"
  by (cases "pattern d") (auto simp: is_match_expr_def last_char_def)

lemma DFA_step_eq:
  "DFA_step d s = Inr (d\<lparr>current_state := step_state d s\<rparr>, step_state d s, step_accept d s)"
  by (auto simp: DFA_step_def step_state_def step_accept_def is_match_expr_eq Let_def)

lemma DFA_scan_eq:
  "DFA_scan d i xs ms = Inr (d\<lparr>current_state := run_state d xs\<rparr>, ms @ scan_matches d i xs)"
  by (induction xs arbitrary: d i ms) (simp_all add: DFA_step_eq)

lemma DFA_run_eq: "DFA_run d xs = Inr (d\<lparr>current_state := run_state d xs\<rparr>)"
  by (induction xs arbitrary: d) (simp_all add: DFA_step_eq)

lemma DFA_find_all_matches_eq:
  "DFA_find_all_matches d xs = Inr (DFA_reset d, scan_matches (DFA_reset d) 0 xs)"
  by (simp add: DFA_find_all_matches_def DFA_scan_eq DFA_reset_def)

lemma DFA_matches_eq: "DFA_matches d xs = Inr (scan_matches (DFA_reset d) 0 xs)"
  by (simp add: DFA_matches_def DFA_find_all_matches_eq)

lemma DFA_reset_idem: "DFA_reset (DFA_reset d) = DFA_reset d"
  by (simp add: DFA_reset_def)

text \<open>The empty pattern: no step accepts.\<close>

lemma empty_pattern_never_accepts: "pattern d = [] \<Longrightarrow> \<not> step_accept d s"
  by (simp add: step_accept_def)

lemma scan_matches_empty_pattern: "pattern d = [] \<Longrightarrow> scan_matches d i xs = []"
  by (induction xs arbitrary: d i) (simp_all add: empty_pattern_never_accepts)

text \<open>The table \<open>_build_linear_chain\<close> builds, read back entry by entry.\<close>

lemma fold_set_transition_fields:
  "pattern (fold (\<lambda>symb. set_transition i symb (f symb)) al d) = pattern d \<and>
   alphabet (fold (\<lambda>symb. set_transition i symb (f symb)) al d) = alphabet d \<and>
   current_state (fold (\<lambda>symb. set_transition i symb (f symb)) al d) = current_state d"
  by (induction al arbitrary: d) (simp_all add: set_transition_def)

lemma fold_set_transition_lookup:
  "transitions (fold (\<lambda>symb. set_transition i symb (f symb)) al d) (j, s) =
     (if j = i \<and> s \<in> set al then Some (f s) else transitions d (j, s))"
  by (induction al arbitrary: d) (auto simp: set_transition_def)

lemma fold_rows_fields:
  "pattern (fold (\<lambda>i. fold (\<lambda>symb. set_transition i symb (f i symb)) al) is d) = pattern d \<and>
   alphabet (fold (\<lambda>i. fold (\<lambda>symb. set_transition i symb (f i symb)) al) is d) = alphabet d \<and>
   current_state (fold (\<lambda>i. fold (\<lambda>symb. set_transition i symb (f i symb)) al) is d) = current_state d"
  by (induction "is" arbitrary: d) (simp_all add: fold_set_transition_fields)

lemma fold_rows_lookup:
  "transitions (fold (\<lambda>i. fold (\<lambda>symb. set_transition i symb (f i symb)) al) is d) (j, s) =
     (if j \<in> set is \<and> s \<in> set al then Some (f j s) else transitions d (j, s))"
  by (induction "is" arbitrary: d) (auto simp: fold_set_transition_lookup)

lemma build_fields:
  "pattern (build_linear_chain d) = pattern d \<and> alphabet (build_linear_chain d) = alphabet d \<and>
   current_state (build_linear_chain d) = current_state d"
  by (simp add: build_linear_chain_def Let_def fold_rows_fields fold_set_transition_fields)

lemma build_lookup:
  "transitions (build_linear_chain d) (j, s) =
     (if pattern d = [] then (if j = 0 \<and> s \<in> set (alphabet d) then Some 0 else transitions d (j, s))
      else if j < length (pattern d) \<and> s \<in> set (alphabet d) then Some (chain_target (pattern d) j s)
      else transitions d (j, s))"
  by (simp add: build_linear_chain_def Let_def fold_rows_lookup fold_set_transition_lookup)

lemma DFA_init_fields:
  "pattern (DFA_init pat) = upper pat \<and> alphabet (DFA_init pat) = [''A'', ''T'', ''G'', ''C''] \<and>
   current_state (DFA_init pat) = 0"
  by (simp add: DFA_init_def build_fields)

lemma DFA_init_lookup:
  "transitions (DFA_init pat) (j, s) =
     (if s \<in> set [''A'', ''T'', ''G'', ''C''] \<and> (if pat = [] then j = 0 else j < length pat)
      then Some (if pat = [] then 0 else chain_target (upper pat) j s) else None)"
  by (simp add: DFA_init_def build_lookup upper_def)

lemma DFA_init_chain_table: "chain_table (DFA_init pat)"
  by (simp add: chain_table_def DFA_init_fields DFA_init_lookup list_all_iff upper_def)

lemma DFA_reset_init: "DFA_reset (DFA_init pat) = DFA_init pat"
  by (simp add: DFA_reset_def DFA_init_def build_fields)

section \<open>The palindrome engine: what the expansion computes\<close>

lemma expand_loop_result:
  "l < r \<Longrightarrow>
   \<exists>k\<ge>0. expand_loop s l r = Inr (l - k, r + k) \<and>
     (\<forall>j. 0 \<le> j \<and> j < k \<longrightarrow>
        0 \<le> l - j \<and> r + j < int (length s) \<and> complement (s ! nat (l - j)) = s ! nat (r + j)) \<and>
     \<not> (0 \<le> l - k \<and> r + k < int (length s) \<and> complement (s ! nat (l - k)) = s ! nat (r + k))"
proof (induction s l r rule: expand_loop.induct)
  case (1 s l r)
  show ?case
  proof (cases "0 \<le> l \<and> r < int (length s) \<and> complement (s ! nat l) = s ! nat r")
    case False
    then have "expand_loop s l r = Inr (l, r)"
      using "1.prems" by (subst expand_loop.simps) auto
    with False show ?thesis by (intro exI[of _ 0]) auto
  next
    case True
    with "1.prems" have lt: "\<not> int (length s) \<le> l" by linarith
    have "\<exists>k\<ge>0. expand_loop s (l - 1) (r + 1) = Inr (l - 1 - k, r + 1 + k) \<and>
      (\<forall>j. 0 \<le> j \<and> j < k \<longrightarrow>
        0 \<le> l - 1 - j \<and> r + 1 + j < int (length s) \<and>
        complement (s ! nat (l - 1 - j)) = s ! nat (r + 1 + j)) \<and>
      \<not> (0 \<le> l - 1 - k \<and> r + 1 + k < int (length s) \<and>
        complement (s ! nat (l - 1 - k)) = s ! nat (r + 1 + k))"
      using "1.IH" True lt "1.prems" by simp
    then obtain k where k: "k \<ge> 0"
      "expand_loop s (l - 1) (r + 1) = Inr (l - 1 - k, r + 1 + k)"
      "\<forall>j. 0 \<le> j \<and> j < k \<longrightarrow>
        0 \<le> l - 1 - j \<and> r + 1 + j < int (length s) \<and>
        complement (s ! nat (l - 1 - j)) = s ! nat (r + 1 + j)"
      "\<not> (0 \<le> l - 1 - k \<and> r + 1 + k < int (length s) \<and>
        complement (s ! nat (l - 1 - k)) = s ! nat (r + 1 + k))"
      by blast
    have e: "expand_loop s l r = Inr (l - (k + 1), r + (k + 1))"
      using True lt k(2) by (subst expand_loop.simps) (simp add: algebra_simps)
    have a: "0 \<le> l - j \<and> r + j < int (length s) \<and> complement (s ! nat (l - j)) = s ! nat (r + j)"
      if "0 \<le> j" "j < k + 1" for j
    proof (cases "j = 0")
      case True
      with \<open>0 \<le> l \<and> r < int (length s) \<and> complement (s ! nat l) = s ! nat r\<close> show ?thesis by simp
    next
      case False
      with that have "0 \<le> j - 1 \<and> j - 1 < k" by linarith
      with k(3) have "0 \<le> l - 1 - (j - 1) \<and> r + 1 + (j - 1) < int (length s) \<and>
        complement (s ! nat (l - 1 - (j - 1))) = s ! nat (r + 1 + (j - 1))" by blast
      then show ?thesis by (simp add: algebra_simps)
    qed
    have b: "\<not> (0 \<le> l - (k + 1) \<and> r + (k + 1) < int (length s) \<and>
        complement (s ! nat (l - (k + 1))) = s ! nat (r + (k + 1)))"
      using k(4) by (simp add: algebra_simps)
    from k(1) e a b show ?thesis
      by (intro exI[of _ "k + 1"]) simp
  qed
qed


lemma expand_append: "expand s m l r ms = map_sum id ((@) ms) (expand s m l r [])"
  by (auto simp: expand_def Let_def split: sum.splits)

lemma expand_total:
  "l < r \<Longrightarrow> \<exists>c. expand s m l r [] = Inr c"
  using expand_loop_result[of l r s] by (auto simp: expand_def Let_def)

lemma expand_centers_set:
  "\<exists>ms'. expand_centers s m cs ms = Inr ms' \<and>
     set ms' = set ms \<union> {w. \<exists>i\<in>set cs. \<exists>c. expand s m i (i + 1) [] = Inr c \<and> w \<in> set c}"
proof (induction cs arbitrary: ms)
  case Nil
  show ?case by simp
next
  case (Cons i cs)
  obtain c where c: "expand s m i (i + 1) [] = Inr c"
    using expand_total[of i "i + 1" s m] by auto
  then have e: "expand s m i (i + 1) ms = Inr (ms @ c)"
    by (subst expand_append) simp
  from Cons.IH[of "ms @ c"] obtain ms' where ms': "expand_centers s m cs (ms @ c) = Inr ms'"
    "set ms' = set (ms @ c) \<union> {w. \<exists>i\<in>set cs. \<exists>c. expand s m i (i + 1) [] = Inr c \<and> w \<in> set c}"
    by blast
  have "expand_centers s m (i # cs) ms = Inr ms'" using e ms'(1) by simp
  moreover have "set ms' = set ms \<union> {w. \<exists>j\<in>set (i # cs). \<exists>c. expand s m j (j + 1) [] = Inr c \<and> w \<in> set c}"
    using ms'(2) c by auto
  ultimately show ?case by blast
qed

lemma PDA_find_all_matches_set:
  "\<exists>ms. PDA_find_all_matches p S = Inr ms \<and> sorted ms \<and> distinct ms \<and>
     set ms = {w. \<exists>i. 0 \<le> i \<and> i \<le> int (length S) - 2 \<and>
                  (\<exists>c. expand (upper S) (min_len p) i (i + 1) [] = Inr c \<and> w \<in> set c)}"
proof -
  let ?s = "upper S"
  obtain ms' where ms': "expand_centers ?s (min_len p) [0..int (length ?s) - 2] [] = Inr ms'"
    "set ms' = set [] \<union> {w. \<exists>i\<in>set [0..int (length ?s) - 2].
        \<exists>c. expand ?s (min_len p) i (i + 1) [] = Inr c \<and> w \<in> set c}"
    using expand_centers_set[of ?s "min_len p" "[0..int (length ?s) - 2]" "[]"] by blast
  have l: "length ?s = length S" by (simp add: upper_def)
  have "PDA_find_all_matches p S = Inr (sorted_list_of_set (set ms'))"
    unfolding PDA_find_all_matches_def Let_def ms'(1) by simp
  moreover have "set (sorted_list_of_set (set ms')) = set ms'" by simp
  moreover have "set ms' =
     {w. \<exists>i. 0 \<le> i \<and> i \<le> int (length S) - 2 \<and>
                  (\<exists>c. expand (upper S) (min_len p) i (i + 1) [] = Inr c \<and> w \<in> set c)}"
    unfolding ms'(2) l by auto
  moreover have "sorted (sorted_list_of_set (set ms'))" "distinct (sorted_list_of_set (set ms'))"
    by simp_all
  ultimately show ?thesis by (intro exI[of _ "sorted_list_of_set (set ms')"]) simp
qed

lemma PDA_find_all_matches_total: "\<exists>ms. PDA_find_all_matches p S = Inr ms"
  using PDA_find_all_matches_set[of p S] by blast

text \<open>
  A complement window of even length is covered by the expansion around its center.
\<close>

lemma expand_center_covers:
  assumes k: "1 \<le> k" and a: "0 \<le> a" and b: "b = a + 2 * k - 1" and n: "b < int (length s)"
    and m: "m \<le> b - a + 1"
    and v: "\<forall>t. 0 \<le> t \<and> t < k \<longrightarrow> complement (s ! nat (a + t)) = s ! nat (b - t)"
  shows "\<exists>j\<ge>0. expand s m (a + k - 1) (a + k) [] = Inr [(a - j, b + j)] \<and>
           (j > 0 \<longrightarrow> 0 \<le> a - 1 \<and> b + 1 < int (length s) \<and>
                     complement (s ! nat (a - 1)) = s ! nat (b + 1))"
proof -
  let ?i = "a + k - 1"
  obtain K where K: "K \<ge> 0" "expand_loop s ?i (?i + 1) = Inr (?i - K, ?i + 1 + K)"
    "\<forall>j. 0 \<le> j \<and> j < K \<longrightarrow>
        0 \<le> ?i - j \<and> ?i + 1 + j < int (length s) \<and>
        complement (s ! nat (?i - j)) = s ! nat (?i + 1 + j)"
    "\<not> (0 \<le> ?i - K \<and> ?i + 1 + K < int (length s) \<and>
        complement (s ! nat (?i - K)) = s ! nat (?i + 1 + K))"
    using expand_loop_result[of ?i "?i + 1" s] by auto
  have kK: "k \<le> K"
  proof (rule ccontr)
    assume "\<not> k \<le> K"
    then have lt: "K < k" by simp
    then have "0 \<le> k - 1 - K \<and> k - 1 - K < k" using K(1) by simp
    with v have "complement (s ! nat (a + (k - 1 - K))) = s ! nat (b - (k - 1 - K))" by blast
    moreover have "a + (k - 1 - K) = ?i - K" "b - (k - 1 - K) = ?i + 1 + K"
      using b by simp_all
    ultimately have "complement (s ! nat (?i - K)) = s ! nat (?i + 1 + K)" by simp
    moreover have "0 \<le> ?i - K" "?i + 1 + K < int (length s)" using lt a b n by simp_all
    ultimately show False using K(4) by blast
  qed
  have w: "?i - K + 1 = a - (K - k)" "?i + 1 + K - 1 = b + (K - k)" using b by simp_all
  have len: "m \<le> (b + (K - k)) - (a - (K - k)) + 1" using m kK by simp
  have e: "expand s m ?i (?i + 1) [] = Inr [(a - (K - k), b + (K - k))]"
    using K(2) w len by (simp add: expand_def Let_def)
  have x: "0 \<le> a - 1 \<and> b + 1 < int (length s) \<and> complement (s ! nat (a - 1)) = s ! nat (b + 1)"
    if "K - k > 0"
  proof -
    from that have "0 \<le> k \<and> k < K" using k by simp
    with K(3) have "0 \<le> ?i - k \<and> ?i + 1 + k < int (length s) \<and>
        complement (s ! nat (?i - k)) = s ! nat (?i + 1 + k)" by blast
    moreover have "?i - k = a - 1" "?i + 1 + k = b + 1" using b by simp_all
    ultimately show ?thesis by simp
  qed
  have i1: "?i + 1 = a + k" by simp
  from e have e': "expand s m ?i (a + k) [] = Inr [(a - (K - k), b + (K - k))]"
    by (simp only: i1)
  from kK e' x show ?thesis
    by (intro exI[of _ "K - k"]) simp
qed

text \<open>What holds of every window the palindrome engine returns.\<close>

lemma complement_back: "complement x = y \<Longrightarrow> y \<noteq> CHR ''?'' \<Longrightarrow> complement y = x"
  by (auto simp: complement_def split: if_splits)

lemma expand_center_sound:
  assumes i: "0 \<le> i" "i \<le> int (length s) - 2"
    and e: "expand s m i (i + 1) [] = Inr c" and w: "(a, b) \<in> set c"
  shows "m \<le> b - a + 1 \<and> even (b - a + 1) \<and> 0 \<le> a \<and> b < int (length s) \<and>
         (\<forall>t. 0 \<le> t \<and> 2 * t < b - a + 1 \<longrightarrow> complement (s ! nat (a + t)) = s ! nat (b - t))"
proof -
  obtain K where K: "K \<ge> 0" "expand_loop s i (i + 1) = Inr (i - K, i + 1 + K)"
    "\<forall>j. 0 \<le> j \<and> j < K \<longrightarrow>
        0 \<le> i - j \<and> i + 1 + j < int (length s) \<and>
        complement (s ! nat (i - j)) = s ! nat (i + 1 + j)"
    using expand_loop_result[of i "i + 1" s] by auto
  from e w K(2) have ab: "a = i - K + 1" "b = i + K" and len: "m \<le> 2 * K"
    by (auto simp: expand_def Let_def split: if_splits)
  have bounds: "0 \<le> a \<and> b < int (length s)"
  proof (cases "K = 0")
    case True
    then show ?thesis using ab i by simp
  next
    case False
    with K(1) have "0 \<le> K - 1 \<and> K - 1 < K" by simp
    with K(3) have "0 \<le> i - (K - 1) \<and> i + 1 + (K - 1) < int (length s)" by blast
    then show ?thesis using ab by simp
  qed
  have pairs: "complement (s ! nat (a + t)) = s ! nat (b - t)" if "0 \<le> t" "2 * t < b - a + 1" for t
  proof -
    from that ab have "0 \<le> K - 1 - t \<and> K - 1 - t < K" by simp
    with K(3) have "complement (s ! nat (i - (K - 1 - t))) = s ! nat (i + 1 + (K - 1 - t))" by blast
    moreover have "i - (K - 1 - t) = a + t" "i + 1 + (K - 1 - t) = b - t" using ab by simp_all
    ultimately show ?thesis by simp
  qed
  have "b - a + 1 = 2 * K" using ab by simp
  with len bounds pairs show ?thesis by simp
qed

lemma PDA_windows_sound:
  assumes "PDA_find_all_matches p S = Inr ms" and "(a, b) \<in> set ms"
  shows "min_len p \<le> b - a + 1 \<and> even (b - a + 1) \<and> 0 \<le> a \<and> b < int (length S) \<and>
         (\<forall>t. 0 \<le> t \<and> 2 * t < b - a + 1 \<longrightarrow>
              complement (upper S ! nat (a + t)) = upper S ! nat (b - t))"
proof -
  have l: "length (upper S) = length S" by (simp add: upper_def)
  from PDA_find_all_matches_set[of p S] assms obtain i c where
    "0 \<le> i" "i \<le> int (length S) - 2" "expand (upper S) (min_len p) i (i + 1) [] = Inr c"
    "(a, b) \<in> set c"
    by auto
  from expand_center_sound[of i "upper S" "min_len p" c a b] this l show ?thesis by simp
qed

lemma PDA_windows_complement:
  assumes "PDA_find_all_matches p S = Inr ms" and "(a, b) \<in> set ms"
    and q: "CHR ''?'' \<notin> set (upper S)"
  shows "complement_window (upper S) a b"
proof -
  let ?s = "upper S"
  have l: "length ?s = length S" by (simp add: upper_def)
  from PDA_windows_sound[OF assms(1,2)] have a0: "0 \<le> a" and bn: "b < int (length S)"
    and h: "\<forall>t. 0 \<le> t \<and> 2 * t < b - a + 1 \<longrightarrow> complement (?s ! nat (a + t)) = ?s ! nat (b - t)"
    and ev: "even (b - a + 1)"
    by simp_all
  have "complement (?s ! nat (a + t)) = ?s ! nat (b - t)" if t: "t \<in> {0..b - a}" for t
  proof (cases "2 * t < b - a + 1")
    case True
    with h t show ?thesis by simp
  next
    case False
    let ?u = "b - a - t"
    from ev False have "2 * t \<noteq> b - a + 1 - 1" by presburger
    with False t have u: "0 \<le> ?u \<and> 2 * ?u < b - a + 1" by simp
    with h have c: "complement (?s ! nat (a + ?u)) = ?s ! nat (b - ?u)" by blast
    have "b - ?u = a + t" by simp
    moreover have "a + t < int (length S)" "0 \<le> a + t" using t a0 bn by simp_all
    ultimately have "nat (b - ?u) < length ?s" unfolding l by linarith
    then have "?s ! nat (b - ?u) \<in> set ?s" by (rule nth_mem)
    with q have "?s ! nat (b - ?u) \<noteq> CHR ''?''" by metis
    from complement_back[OF c this] have "complement (?s ! nat (b - ?u)) = ?s ! nat (a + ?u)" .
    moreover have "b - ?u = a + t" "a + ?u = b - t" by simp_all
    ultimately show ?thesis by simp
  qed
  with a0 bn l show ?thesis by (simp add: complement_window_def)
qed

section \<open>The linear-chain engine: the prefix invariant\<close>

lemma chain_table_state [simp]: "chain_table (d\<lparr>current_state := q\<rparr>) = chain_table d"
  by (simp add: chain_table_def)

lemma chain_table_lookup:
  assumes "chain_table d" "i < length (pattern d)" "s \<in> set [''A'', ''T'', ''G'', ''C'']"
  shows "transitions d (i, s) = Some (chain_target (pattern d) i s)"
  using assms unfolding chain_table_def list_all_iff by auto

lemma upper_single: "upper [c] = [upper_char c]"
  by (simp add: upper_def)

lemma step_state_base:
  assumes "chain_table d" "current_state d < length (pattern d)" "is_base c"
  shows "step_state d [c] = chain_target (pattern d) (current_state d) [upper_char c]"
proof -
  from assms(3) have m: "upper [c] \<in> set [''A'', ''T'', ''G'', ''C'']" by (simp add: is_base_def)
  from assms(1) have al: "alphabet d = [''A'', ''T'', ''G'', ''C'']" by (simp add: chain_table_def)
  from chain_table_lookup[OF assms(1,2) m] m al show ?thesis
    by (simp add: step_state_def upper_single)
qed

lemma step_nonbase:
  assumes "chain_table d" "\<not> is_base c"
  shows "step_state d [c] = current_state d" "\<not> step_accept d [c]"
proof -
  from assms(1) have al: "alphabet d = [''A'', ''T'', ''G'', ''C'']" by (simp add: chain_table_def)
  with assms(2) have "upper [c] \<notin> set (alphabet d)" by (simp add: is_base_def)
  then show "step_state d [c] = current_state d" "\<not> step_accept d [c]"
    by (simp_all add: step_state_def step_accept_def)
qed

lemma step_accept_base:
  assumes "chain_table d" "current_state d < length (pattern d)" "step_accept d [c]"
  shows "is_base c \<and> Suc (current_state d) = length (pattern d) \<and> upper_char c = last (pattern d)"
proof -
  from assms(1,3) have "is_base c" using step_nonbase(2) by blast
  with assms(3) show ?thesis by (simp add: step_accept_def upper_single)
qed

lemma prefix_inv_step:
  assumes "prefix_inv p q w"
  shows "prefix_inv p (chain_target p q [x]) (w @ [x])"
proof -
  from assms have q: "q < length p" "q \<le> length w" and d: "drop (length w - q) w = take q p"
    by (simp_all add: prefix_inv_def)
  consider (adv) "x = p ! q" "q \<noteq> length p - 1"
    | (fin) "x = p ! q" "q = length p - 1"
    | (one) "x \<noteq> p ! q" "x = p ! 0" "q \<noteq> 0"
    | (zero) "x \<noteq> p ! q" "\<not> (x = p ! 0 \<and> q \<noteq> 0)"
    by blast
  then show ?thesis
  proof cases
    case adv
    then have t: "chain_target p q [x] = Suc q" by (simp add: chain_target_def)
    have "Suc q < length p" using q(1) adv(2) by simp
    moreover have "drop (length (w @ [x]) - Suc q) (w @ [x]) = take (Suc q) p"
      using q d adv(1) by (simp add: take_Suc_conv_app_nth)
    ultimately show ?thesis using q(2) unfolding t prefix_inv_def by simp
  next
    case fin
    then have "chain_target p q [x] = 0" by (simp add: chain_target_def)
    then show ?thesis using q(1) by (auto simp: prefix_inv_def)
  next
    case one
    then have t: "chain_target p q [x] = 1" by (simp add: chain_target_def)
    have "1 < length p" using q(1) one(3) by simp
    moreover have "take 1 p = [x]" using q(1) one(2) by (cases p) simp_all
    ultimately show ?thesis unfolding t prefix_inv_def by simp
  next
    case zero
    then have "chain_target p q [x] = 0" by (auto simp: chain_target_def)
    then show ?thesis using q(1) by (auto simp: prefix_inv_def)
  qed
qed

lemma prefix_inv_accept:
  assumes "prefix_inv p q w" "Suc q = length p" "x = last p"
  shows "length p \<le> length (w @ [x]) \<and> drop (length (w @ [x]) - length p) (w @ [x]) = p"
proof -
  from assms(1) have q: "q < length p" "q \<le> length w" and d: "drop (length w - q) w = take q p"
    by (simp_all add: prefix_inv_def)
  have ne: "p \<noteq> []" using q(1) by auto
  have "q = length p - 1" using assms(2) by simp
  then have "take q p = butlast p" by (simp add: butlast_conv_take)
  then have "drop (length w - q) w @ [x] = p" using d assms(3) ne by simp
  moreover have "length (w @ [x]) - length p = length w - q" using assms(2) by simp
  moreover have "length w - q \<le> length w" by simp
  ultimately show ?thesis using q(2) assms(2) by simp
qed

lemma bases_snoc: "bases (w @ [c]) = (if is_base c then bases w @ [upper_char c] else bases w)"
  by (simp add: bases_def)

lemma bases_append: "bases (u @ v) = bases u @ bases v"
  by (simp add: bases_def)

lemma length_bases_le: "length (bases w) \<le> length w"
  by (simp add: bases_def)

lemma bases_all: "\<forall>c\<in>set w. is_base c \<Longrightarrow> bases w = upper w"
  by (simp add: bases_def upper_def)

lemma run_state_inv:
  assumes "chain_table d" "prefix_inv (pattern d) (current_state d) (bases pre)"
  shows "prefix_inv (pattern d) (run_state d xs) (bases (pre @ xs))"
  using assms
proof (induction xs arbitrary: d pre)
  case Nil
  then show ?case by simp
next
  case (Cons c xs)
  let ?d = "d\<lparr>current_state := step_state d [c]\<rparr>"
  have q: "current_state d < length (pattern d)" using Cons.prems(2) by (simp add: prefix_inv_def)
  have "prefix_inv (pattern ?d) (current_state ?d) (bases (pre @ [c]))"
  proof (cases "is_base c")
    case True
    then show ?thesis
      using prefix_inv_step[OF Cons.prems(2), of "upper_char c"] step_state_base[OF Cons.prems(1) q True]
      by (simp add: bases_snoc)
  next
    case False
    then show ?thesis using Cons.prems(2) step_nonbase(1)[OF Cons.prems(1) False]
      by (simp add: bases_snoc)
  qed
  moreover have "chain_table ?d" using Cons.prems(1) by simp
  ultimately have "prefix_inv (pattern ?d) (run_state ?d xs) (bases ((pre @ [c]) @ xs))"
    by (rule Cons.IH[rotated])
  then show ?case by simp
qed

lemma scan_matches_sound:
  assumes "chain_table d" "prefix_inv (pattern d) (current_state d) (bases pre)"
    and "(a, b) \<in> set (scan_matches d (length pre) xs)"
  shows "\<exists>j. a = int j - int (length (pattern d)) + 1 \<and> b = int j \<and>
             match_at (pattern d) (pre @ xs) j"
  using assms
proof (induction xs arbitrary: d pre)
  case Nil
  then show ?case by simp
next
  case (Cons c xs)
  let ?d = "d\<lparr>current_state := step_state d [c]\<rparr>"
  have q: "current_state d < length (pattern d)" using Cons.prems(2) by (simp add: prefix_inv_def)
  have inv: "prefix_inv (pattern ?d) (current_state ?d) (bases (pre @ [c]))"
  proof (cases "is_base c")
    case True
    then show ?thesis
      using prefix_inv_step[OF Cons.prems(2), of "upper_char c"] step_state_base[OF Cons.prems(1) q True]
      by (simp add: bases_snoc)
  next
    case False
    then show ?thesis using Cons.prems(2) step_nonbase(1)[OF Cons.prems(1) False]
      by (simp add: bases_snoc)
  qed
  have ct: "chain_table ?d" using Cons.prems(1) by simp
  from Cons.prems(3) consider
      (here) "step_accept d [c]" "(a, b) = (int (length pre) - int (length (pattern d)) + 1, int (length pre))"
    | (later) "(a, b) \<in> set (scan_matches ?d (length (pre @ [c])) xs)"
    by (auto split: if_splits)
  then show ?case
  proof cases
    case here
    from step_accept_base[OF Cons.prems(1) q here(1)]
    have sb: "is_base c" "Suc (current_state d) = length (pattern d)" "upper_char c = last (pattern d)"
      by simp_all
    have t: "take (Suc (length pre)) (pre @ c # xs) = pre @ [c]" by simp
    have "match_at (pattern d) (pre @ c # xs) (length pre)"
      unfolding match_at_def t
      using prefix_inv_accept[OF Cons.prems(2) sb(2) sb(3)] sb(1)
      by (simp add: bases_snoc)
    with here(2) show ?thesis by (intro exI[of _ "length pre"]) simp
  next
    case later
    from Cons.IH[OF ct inv later] show ?thesis by simp
  qed
qed

lemma match_at_bounds:
  assumes "match_at p s j"
  shows "length p \<le> Suc j" "j < length s"
proof -
  from assms have "length p \<le> length (bases (take (Suc j) s))" by (simp add: match_at_def)
  also have "\<dots> \<le> length (take (Suc j) s)" by (rule length_bases_le)
  also have "\<dots> \<le> Suc j" by simp
  finally show "length p \<le> Suc j" .
  from assms show "j < length s" by (simp add: match_at_def)
qed

lemma match_at_window:
  assumes m: "match_at p s j" and b: "\<forall>k\<in>{Suc j - length p..j}. is_base (s ! k)"
  shows "upper (take (length p) (drop (Suc j - length p) s)) = p"
proof -
  let ?n = "length p" and ?a = "Suc j - length p"
  let ?W = "take ?n (drop ?a s)"
  have n: "?n \<le> Suc j" and j: "j < length s" using match_at_bounds[OF m] by simp_all
  have an: "?a + ?n = Suc j" using n by simp
  have lw: "length ?W = ?n" using n j by simp
  have "take (?a + ?n) s = take ?a s @ ?W" by (rule take_add)
  then have t: "take (Suc j) s = take ?a s @ ?W" using an by simp
  have "\<forall>c\<in>set ?W. is_base c"
  proof
    fix c assume "c \<in> set ?W"
    then obtain t where t: "t < length ?W" "c = ?W ! t" by (auto simp: in_set_conv_nth)
    with lw have tn: "t < ?n" by simp
    then have "?W ! t = s ! (?a + t)" using n j by simp
    moreover have "?a + t \<in> {?a..j}" using tn n by auto
    ultimately show "is_base c" using b t(2) by simp
  qed
  then have bw: "bases ?W = upper ?W" by (rule bases_all)
  have lu: "length (upper ?W) = ?n" using lw by (simp add: upper_def)
  from m have "drop (length (bases (take (Suc j) s)) - ?n) (bases (take (Suc j) s)) = p"
    by (simp add: match_at_def)
  then have "drop (length (bases (take ?a s)) + ?n - ?n) (bases (take ?a s) @ upper ?W) = p"
    unfolding t bases_append bw by (simp add: lu)
  then show ?thesis by simp
qed

lemma DFA_init_prefix_inv:
  assumes "pat \<noteq> []"
  shows "prefix_inv (pattern (DFA_reset ((DFA_init pat)\<lparr>current_state := q\<rparr>)))
           (current_state (DFA_reset ((DFA_init pat)\<lparr>current_state := q\<rparr>))) (bases [])"
  using assms by (simp add: prefix_inv_def DFA_reset_def DFA_init_fields upper_def)

lemma DFA_init_matches_sound:
  assumes "(a, b) \<in> set (scan_matches (DFA_reset ((DFA_init pat)\<lparr>current_state := q\<rparr>)) 0 S)"
  shows "\<exists>j. a = int j - int (length pat) + 1 \<and> b = int j \<and> match_at (upper pat) S j"
proof (cases "pat = []")
  case True
  then have "pattern (DFA_reset ((DFA_init pat)\<lparr>current_state := q\<rparr>)) = []"
    by (simp add: DFA_reset_def DFA_init_fields upper_def)
  from scan_matches_empty_pattern[OF this] assms show ?thesis by simp
next
  case False
  let ?d = "DFA_reset ((DFA_init pat)\<lparr>current_state := q\<rparr>)"
  have ct: "chain_table ?d" using DFA_init_chain_table[of pat] by (simp add: DFA_reset_def)
  have p: "pattern ?d = upper pat" by (simp add: DFA_reset_def DFA_init_fields)
  have l: "length (upper pat) = length pat" by (simp add: upper_def)
  from assms have "(a, b) \<in> set (scan_matches ?d (length ([]::string)) S)" by simp
  from scan_matches_sound[OF ct DFA_init_prefix_inv[OF False] this] show ?thesis
    unfolding p l by simp
qed

lemma window_of_match:
  assumes "length p \<le> Suc j"
  shows "window s (int j - int (length p) + 1) (int j) = take (length p) (drop (Suc j - length p) s)"
proof -
  have "nat (int j - (int j - int (length p) + 1) + 1) = length p" by simp
  moreover have "nat (int j - int (length p) + 1) = Suc j - length p" using assms by linarith
  ultimately show ?thesis by (simp add: window_def)
qed

section \<open>The claims\<close>

subsection \<open>Windows of the linear-chain engine\<close>

text \<open>
  C1. The claim: for any sequence, every window \<open>(start, end)\<close> returned by
  \<open>find_all_matches\<close> of the linear-chain engine has the pattern's length and its
  uppercased characters equal the uppercased pattern. \<open>step\<close> leaves the state as it is
  on a character outside the alphabet, while \<open>find_all_matches\<close> computes the window
  from the index of the accepting step alone: for pattern \<open>AT\<close> the sequence \<open>AXT\<close>
  yields the window \<open>(1,2)\<close>, whose characters are \<open>XT\<close>.
\<close>

theorem DFA_skipped_symbol_window:
  "DFA_matches (DFA_init ''AT'') ''AXT'' = Inr [(1, 2)] \<and>
   upper (window ''AXT'' 1 2) = ''XT'' \<and>
   upper (window ''AXT'' 1 2) \<noteq> upper ''AT''"
  by code_simp

text \<open>
  C5. For a non-empty pattern and a sequence of bases only (in either case): after
  any number of steps since \<open>reset\<close>, when the current state is \<open>i\<close>, the last \<open>i\<close> symbols
  consumed are the first \<open>i\<close> characters of the pattern; and every window
  \<open>find_all_matches\<close> returns lies inside the sequence and spells the pattern.
\<close>

theorem DFA_prefix_invariant:
  assumes ne: "pat \<noteq> []" and bs: "\<forall>c\<in>set S. is_base c"
  shows "(\<forall>k\<le>length S. \<exists>d'.
            DFA_run (DFA_reset (DFA_init pat)) (take k S) = Inr d' \<and>
            current_state d' \<le> k \<and>
            drop (k - current_state d') (upper (take k S)) = take (current_state d') (upper pat)) \<and>
         (\<exists>ms. DFA_matches (DFA_init pat) S = Inr ms \<and>
            (\<forall>(a, b)\<in>set ms. 0 \<le> a \<and> b < int (length S) \<and> upper (window S a b) = upper pat))"
proof -
  let ?d = "DFA_reset (DFA_init pat)"
  have l: "length (upper pat) = length pat" by (simp add: upper_def)
  have d: "?d = DFA_reset ((DFA_init pat)\<lparr>current_state := 0\<rparr>)" by (simp add: DFA_reset_def)
  have ct: "chain_table ?d" using DFA_init_chain_table[of pat] by (simp add: DFA_reset_def)
  have p: "pattern ?d = upper pat" by (simp add: DFA_reset_def DFA_init_fields)
  have inv0: "prefix_inv (pattern ?d) (current_state ?d) (bases [])"
    using DFA_init_prefix_inv[OF ne, of 0] unfolding d[symmetric] .
  have run: "\<exists>d'. DFA_run ?d (take k S) = Inr d' \<and> current_state d' \<le> k \<and>
            drop (k - current_state d') (upper (take k S)) = take (current_state d') (upper pat)"
    if k: "k \<le> length S" for k
  proof -
    let ?q = "run_state ?d (take k S)"
    have "\<forall>c\<in>set (take k S). is_base c" using bs by (meson in_set_takeD)
    then have b: "bases (take k S) = upper (take k S)" by (rule bases_all)
    have lk: "length (upper (take k S)) = k" using k by (simp add: upper_def)
    from run_state_inv[OF ct inv0, of "take k S"]
    have "prefix_inv (upper pat) ?q (upper (take k S))" by (simp add: p b)
    then have "?q \<le> k" "drop (k - ?q) (upper (take k S)) = take ?q (upper pat)"
      by (simp_all add: prefix_inv_def lk)
    then show ?thesis by (simp add: DFA_run_eq)
  qed
  have win: "0 \<le> a \<and> b < int (length S) \<and> upper (window S a b) = upper pat"
    if "(a, b) \<in> set (scan_matches (DFA_reset (DFA_init pat)) 0 S)" for a b
  proof -
    from that have "(a, b) \<in> set (scan_matches (DFA_reset ((DFA_init pat)\<lparr>current_state := 0\<rparr>)) 0 S)"
      using d by simp
    from DFA_init_matches_sound[OF this] obtain j where
      j: "a = int j - int (length pat) + 1" "b = int j" "match_at (upper pat) S j" by blast
    from match_at_bounds[OF j(3)] have n: "length pat \<le> Suc j" and js: "j < length S"
      by (simp_all add: l)
    have w: "window S a b = take (length pat) (drop (Suc j - length pat) S)"
      unfolding j(1,2) using window_of_match[of "upper pat" j S] n by (simp add: l)
    have "\<forall>k\<in>{Suc j - length (upper pat)..j}. is_base (S ! k)" using bs js by simp
    from match_at_window[OF j(3) this] have "upper (window S a b) = upper pat" by (simp add: w l)
    then show ?thesis using j(1,2) n js by simp
  qed
  from run win show ?thesis by (auto simp: DFA_matches_eq)
qed

theorem DFA_prefix_invariant_witness:
  "(\<exists>d'. DFA_run (DFA_reset (DFA_init ''atg'')) (take 3 ''catgatg'') = Inr d' \<and>
         current_state d' = 2 \<and>
         drop (3 - current_state d') (upper (take 3 ''catgatg'')) = take (current_state d') (upper ''atg'')) \<and>
   DFA_matches (DFA_init ''atg'') ''catgatg'' = Inr [(1, 3), (4, 6)] \<and>
   upper (window ''catgatg'' 1 3) = upper ''atg''"
proof -
  have h1: "''atg'' \<noteq> []" by simp
  have h2: "\<forall>c\<in>set ''catgatg''. is_base c" by code_simp
  have e: "DFA_matches (DFA_init ''atg'') ''catgatg'' = Inr [(1, 3), (4, 6)]" by code_simp
  have r: "run_state (DFA_reset (DFA_init ''atg'')) (take 3 ''catgatg'') = 2" by code_simp
  have k: "(3::nat) \<le> length ''catgatg''" by simp
  from DFA_prefix_invariant[OF h1 h2] e have
    a: "\<forall>k\<le>length ''catgatg''. \<exists>d'.
            DFA_run (DFA_reset (DFA_init ''atg'')) (take k ''catgatg'') = Inr d' \<and>
            current_state d' \<le> k \<and>
            drop (k - current_state d') (upper (take k ''catgatg'')) = take (current_state d') (upper ''atg'')"
    and b: "upper (window ''catgatg'' 1 3) = upper ''atg''"
    by simp_all
  from a k obtain d' where d': "DFA_run (DFA_reset (DFA_init ''atg'')) (take 3 ''catgatg'') = Inr d'"
    "drop (3 - current_state d') (upper (take 3 ''catgatg'')) = take (current_state d') (upper ''atg'')"
    by blast
  from d'(1) have "current_state d' = 2" unfolding DFA_run_eq using r by auto
  with d' e b show ?thesis by blast
qed

subsection \<open>Matches the linear-chain engine misses\<close>

text \<open>
  C2. The claim: \<open>find_all_matches\<close> of the linear-chain engine reports every index range
  of the sequence that spells the pattern, overlapping occurrences included, and
  pattern \<open>AAA\<close> on sequence \<open>AAAA\<close> yields \<open>[(0,2),(1,3)]\<close>. The engine returns to state
  0 after a match and falls back to state 1 at most on a mismatch, so it reports
  \<open>[(0,2)]\<close> there although the window \<open>(1,3)\<close> spells \<open>AAA\<close>, and it reports nothing for
  pattern \<open>AAT\<close> on \<open>AAAT\<close> although the window \<open>(1,3)\<close> spells \<open>AAT\<close>.
\<close>

theorem DFA_overlap_missed:
  "DFA_matches (DFA_init ''AAA'') ''AAAA'' = Inr [(0, 2)] \<and>
   upper (window ''AAAA'' 1 3) = upper ''AAA'' \<and>
   DFA_matches (DFA_init ''AAT'') ''AAAT'' = Inr [] \<and>
   upper (window ''AAAT'' 1 3) = upper ''AAT''"
  by code_simp

subsection \<open>Windows of the palindrome engine\<close>

text \<open>
  C3. The claim: every window \<open>(start, end)\<close> the palindrome engine returns has at least
  the minimum length and satisfies \<open>complement(S[start+i]) = S[end-i]\<close> at every offset
  of the window. The expansion compares \<open>_comp(s[l])\<close> with \<open>s[r]\<close> only, and \<open>_comp\<close>
  answers \<open>?\<close> for every character that is not a base: on \<open>NN??\<close> with minimum length 4
  the engine returns the window \<open>(0,3)\<close>, where the offset 2 fails
  (\<open>complement(?) = ?\<close>, not \<open>N\<close>).
\<close>

theorem PDA_question_mark_window:
  "PDA_find_all_matches (PDA_init ''PALINDROME'' 4) ''NN??'' = Inr [(0, 3)] \<and>
   complement (upper ''NN??'' ! nat (0 + 2)) \<noteq> upper ''NN??'' ! nat (3 - 2)"
  by code_simp

text \<open>
  C4. The claim as stated: every window of length at least the minimum in which the
  complement condition holds at every offset is in the returned list. It fails for a
  window nested in a longer one around the same center: on \<open>AGATCT\<close> only \<open>(0,5)\<close> is
  returned, not the inner \<open>(1,4)\<close>.
\<close>

theorem PDA_inner_window_counterexample:
  "PDA_find_all_matches (PDA_init ''PALINDROME'' 4) ''AGATCT'' = Inr [(0, 5)] \<and>
   complement_window (upper ''AGATCT'') 1 4 \<and>
   min_len (PDA_init ''PALINDROME'' 4) \<le> 4 - 1 + 1 \<and>
   (1, 4) \<notin> set [(0, 5) :: int \<times> int]"
  by code_simp

text \<open>
  C4, as amended. The engine expands around every center between two characters and
  keeps the last window of each expansion. So every complement window of even length at
  least the minimum lies, with the same center, inside a returned window; and it is
  returned itself when the expansion stops at it, that is when it starts at index 0,
  ends at the last index, or the characters next to it on both sides fail the test
  \<open>complement(S[start-1]) = S[end+1]\<close>.
\<close>

theorem PDA_unextendable_windows_reported:
  assumes cw: "complement_window (upper S) a b"
    and len: "min_len p \<le> b - a + 1"
    and ev: "even (b - a + 1)" "a \<le> b"
  shows "\<exists>ms. PDA_find_all_matches p S = Inr ms \<and>
           (\<exists>j\<ge>0. (a - j, b + j) \<in> set ms) \<and>
           (a = 0 \<or> b = int (length S) - 1 \<or>
            complement (upper S ! nat (a - 1)) \<noteq> upper S ! nat (b + 1)
              \<longrightarrow> (a, b) \<in> set ms)"
proof -
  let ?s = "upper S"
  have l: "length ?s = length S" by (simp add: upper_def)
  from ev(1) obtain k where k: "b - a + 1 = 2 * k" by (rule evenE)
  with ev(2) have k1: "1 \<le> k" by simp
  have b: "b = a + 2 * k - 1" using k by simp
  from cw have a0: "0 \<le> a" and bn: "b < int (length ?s)"
    and v: "\<forall>t\<in>{0..b - a}. complement (?s ! nat (a + t)) = ?s ! nat (b - t)"
    by (simp_all add: complement_window_def)
  have v': "\<forall>t. 0 \<le> t \<and> t < k \<longrightarrow> complement (?s ! nat (a + t)) = ?s ! nat (b - t)"
    using v b by simp
  obtain j where j: "0 \<le> j" "expand ?s (min_len p) (a + k - 1) (a + k) [] = Inr [(a - j, b + j)]"
    "j > 0 \<longrightarrow> 0 \<le> a - 1 \<and> b + 1 < int (length ?s) \<and>
                     complement (?s ! nat (a - 1)) = ?s ! nat (b + 1)"
    using expand_center_covers[OF k1 a0 b bn len v'] by blast
  obtain ms where ms: "PDA_find_all_matches p S = Inr ms"
    "set ms = {w. \<exists>i. 0 \<le> i \<and> i \<le> int (length S) - 2 \<and>
                  (\<exists>c. expand ?s (min_len p) i (i + 1) [] = Inr c \<and> w \<in> set c)}"
    using PDA_find_all_matches_set[of p S] by blast
  have c: "0 \<le> a + k - 1 \<and> a + k - 1 \<le> int (length S) - 2" using a0 k1 b bn l by simp
  have "a + k - 1 + 1 = a + k" by simp
  with j(2) have "expand ?s (min_len p) (a + k - 1) (a + k - 1 + 1) [] = Inr [(a - j, b + j)]"
    by (simp only:)
  with c have m: "(a - j, b + j) \<in> set ms" unfolding ms(2) by (intro CollectI exI[of _ "a + k - 1"]) simp
  have "(a, b) \<in> set ms"
    if "a = 0 \<or> b = int (length S) - 1 \<or> complement (?s ! nat (a - 1)) \<noteq> ?s ! nat (b + 1)"
  proof -
    from that j(3) l have "\<not> j > 0" by auto
    with j(1) have "j = 0" by simp
    with m show ?thesis by simp
  qed
  with ms(1) m j(1) show ?thesis by blast
qed

theorem PDA_unextendable_windows_reported_witness:
  "complement_window (upper ''AGATCT'') 0 5 \<and>
   min_len (PDA_init ''PALINDROME'' 4) \<le> 5 - 0 + 1 \<and> even (5 - 0 + 1 :: int) \<and>
   (\<exists>ms. PDA_find_all_matches (PDA_init ''PALINDROME'' 4) ''AGATCT'' = Inr ms \<and> (0, 5) \<in> set ms)"
proof -
  have h1: "complement_window (upper ''AGATCT'') 0 5" by code_simp
  have h2: "min_len (PDA_init ''PALINDROME'' 4) \<le> 5 - 0 + 1" by (simp add: PDA_init_def)
  have h3: "even (5 - 0 + 1 :: int)" "(0::int) \<le> 5" by simp_all
  from PDA_unextendable_windows_reported[OF h1 h2 h3] h1 h2 h3 show ?thesis by auto
qed

subsection \<open>The configuration after a scan\<close>

text \<open>
  C6. The claim as stated: for every engine, \<open>find_all_matches\<close> started from any
  reachable configuration leaves the configuration equal to the initial one. The
  palindrome engine's \<open>find_all_matches\<close> calls no \<open>reset\<close> and writes no field: after one
  \<open>step\<close> the stack holds a symbol, and it still does after the scan.
\<close>

theorem PDA_find_all_matches_no_reset_counterexample:
  "engine_find_all_matches (PDA_engine (fst (PDA_step (PDA_init ''PALINDROME'' 4) ''A''))) ''GATC''
     = Inr (PDA_engine (fst (PDA_step (PDA_init ''PALINDROME'' 4) ''A'')), [(0, 3)]) \<and>
   PDA_engine (fst (PDA_step (PDA_init ''PALINDROME'' 4) ''A''))
     \<noteq> engine_reset (PDA_engine (fst (PDA_step (PDA_init ''PALINDROME'' 4) ''A'')))"
proof -
  have s: "fst (PDA_step (PDA_init ''PALINDROME'' 4) ''A'') =
    \<lparr>pda_pattern = ''PALINDROME'', min_len = 4, stack = [''A''], pos = 1, mode = ''push''\<rparr>"
    by code_simp
  have f: "PDA_find_all_matches
    \<lparr>pda_pattern = ''PALINDROME'', min_len = 4, stack = [''A''], pos = 1, mode = ''push''\<rparr> ''GATC''
      = Inr [(0, 3)]"
    by code_simp
  show ?thesis unfolding s by (simp add: f PDA_reset_def)
qed

text \<open>
  C6, as amended. \<open>find_all_matches\<close> of the linear-chain engine leaves the engine in its
  initial configuration, whatever the configuration before the call;
  \<open>find_all_matches\<close> of the palindrome engine leaves the configuration as it found it;
  hence for both engines a call made in the initial configuration (after \<open>reset()\<close>) ends
  in the initial configuration. No call raises.
\<close>

theorem find_all_matches_configuration:
  "(\<exists>ms. engine_find_all_matches (DFA_engine d) S = Inr (engine_reset (DFA_engine d), ms)) \<and>
   (\<exists>ms. engine_find_all_matches (PDA_engine p) S = Inr (PDA_engine p, ms)) \<and>
   (\<exists>ms. engine_find_all_matches (engine_reset e) S = Inr (engine_reset e, ms))"
proof -
  have a: "\<exists>ms. engine_find_all_matches (DFA_engine d') S = Inr (engine_reset (DFA_engine d'), ms)" for d'
    by (simp add: DFA_find_all_matches_eq)
  have b: "\<exists>ms. engine_find_all_matches (PDA_engine p') S = Inr (PDA_engine p', ms)" for p'
    using PDA_find_all_matches_total[of p' S] by auto
  have c: "\<exists>ms. engine_find_all_matches (engine_reset e) S = Inr (engine_reset e, ms)"
  proof (cases e)
    case (DFA_engine d')
    then show ?thesis using a[of "DFA_reset d'"] by (simp add: DFA_reset_idem)
  next
    case (PDA_engine p')
    then show ?thesis using b[of "PDA_reset p'"] by simp
  qed
  from a b c show ?thesis by blast
qed

subsection \<open>Symbols outside the alphabet\<close>

text \<open>
  C7. A \<open>step\<close> with a symbol outside the alphabet \<open>{A,T,G,C}\<close> (for example \<open>N\<close>; the
  alphabet is case-insensitive, \<open>step\<close> tests the symbol after \<open>upper()\<close>) raises nothing
  and returns the accept flag false, on the linear-chain engine in any state and on the
  palindrome engine in any configuration; the linear-chain engine is left unchanged,
  current state included.
\<close>

theorem step_outside_alphabet:
  assumes "upper symbol \<notin> set [''A'', ''T'', ''G'', ''C'']"
  shows "engine_step (DFA_engine ((DFA_init pat)\<lparr>current_state := q\<rparr>)) symbol
           = Inr (DFA_engine ((DFA_init pat)\<lparr>current_state := q\<rparr>), State_id q, False) \<and>
         (\<exists>p' m. engine_step (PDA_engine p) symbol = Inr (PDA_engine p', Control_mode m, False))"
proof -
  let ?d = "(DFA_init pat)\<lparr>current_state := q\<rparr>"
  have al: "upper symbol \<notin> set (alphabet ?d)" using assms by (simp add: DFA_init_fields)
  then have "step_state ?d symbol = q" "\<not> step_accept ?d symbol"
    by (simp_all add: step_state_def step_accept_def)
  then have "DFA_step ?d symbol = Inr (?d, q, False)" by (simp add: DFA_step_eq)
  moreover have "\<exists>p' m. PDA_step p symbol = (p', m, False)"
    by (simp add: PDA_step_def Let_def)
  ultimately show ?thesis by auto
qed

theorem step_outside_alphabet_witness:
  "engine_step (DFA_engine ((DFA_init ''ATG'')\<lparr>current_state := 1\<rparr>)) ''N''
           = Inr (DFA_engine ((DFA_init ''ATG'')\<lparr>current_state := 1\<rparr>), State_id 1, False) \<and>
   (\<exists>p' m. engine_step (PDA_engine (PDA_init ''PALINDROME'' 4)) ''N''
           = Inr (PDA_engine p', Control_mode m, False))"
proof -
  have h: "upper ''N'' \<notin> set [''A'', ''T'', ''G'', ''C'']" by code_simp
  show ?thesis by (rule step_outside_alphabet[OF h])
qed

subsection \<open>The factory\<close>

text \<open>
  C8. For a type tag that is none of the four supported tags, \<open>create_automaton\<close> raises
  \<open>ValueError\<close> with the message \<open>Unsupported automata type: \<close> followed by the tag, and
  returns no engine.
\<close>

theorem create_automaton_unsupported:
  assumes "tag \<notin> {type_DFA env, type_NFA env, type_ENFA env, type_PDA env}"
  shows "create_automaton env tag pat = Inl (ValueError (''Unsupported automata type: '' @ tag))"
  using assms by (simp add: create_automaton_def automaton_map_def)

theorem create_automaton_unsupported_witness:
  "create_automaton
     \<lparr>type_DFA = ''DFA'', type_NFA = ''NFA'', type_ENFA = ''ENFA'', type_PDA = ''PDA'',
      NFA_new = (\<lambda>_. Inr ()), EpsilonNFA_new = (\<lambda>_. Inr ())\<rparr> ''XYZ'' ''ATG''
   = Inl (ValueError ''Unsupported automata type: XYZ'')"
  using create_automaton_unsupported
    [of "''XYZ''" "\<lparr>type_DFA = ''DFA'', type_NFA = ''NFA'', type_ENFA = ''ENFA'', type_PDA = ''PDA'',
      NFA_new = (\<lambda>_. Inr ()), EpsilonNFA_new = (\<lambda>_. Inr ())\<rparr>" "''ATG''"]
  by simp

subsection \<open>The empty pattern\<close>

text \<open>
  C9. The linear-chain engine built from the empty pattern never matches:
  \<open>find_all_matches\<close> returns the empty list for every sequence, from any state; every
  \<open>step\<close> returns the accept flag false; and every symbol of the alphabet has the
  transition from state 0 to state 0, which \<open>step\<close> takes.
\<close>

theorem empty_pattern_never_matches:
  "(\<forall>q S. DFA_find_all_matches ((DFA_init '''')\<lparr>current_state := q\<rparr>) S = Inr (DFA_init '''', [])) \<and>
   (\<forall>q symbol. \<exists>d' q'. DFA_step ((DFA_init '''')\<lparr>current_state := q\<rparr>) symbol = Inr (d', q', False)) \<and>
   (\<forall>symb \<in> set (alphabet (DFA_init '''')).
       transitions (DFA_init '''') (0, symb) = Some 0 \<and>
       DFA_step (DFA_init '''') symb = Inr (DFA_init '''', 0, False))"
proof -
  have p: "pattern (DFA_init '''') = []" "current_state (DFA_init '''') = 0"
    by (simp_all add: DFA_init_fields upper_def)
  have r: "DFA_reset ((DFA_init '''')\<lparr>current_state := q\<rparr>) = DFA_init ''''" for q
    using DFA_reset_init[of "''''"] by (simp add: DFA_reset_def)
  have a: "DFA_find_all_matches ((DFA_init '''')\<lparr>current_state := q\<rparr>) S = Inr (DFA_init '''', [])" for q S
    by (simp add: DFA_find_all_matches_eq r scan_matches_empty_pattern p)
  have b: "\<exists>d' q'. DFA_step ((DFA_init '''')\<lparr>current_state := q\<rparr>) symbol = Inr (d', q', False)" for q symbol
    by (simp add: DFA_step_eq empty_pattern_never_accepts p)
  have c: "transitions (DFA_init '''') (0, symb) = Some 0 \<and>
       DFA_step (DFA_init '''') symb = Inr (DFA_init '''', 0, False)"
    if "symb \<in> set (alphabet (DFA_init ''''))" for symb
  proof -
    from that have m: "symb \<in> set [''A'', ''T'', ''G'', ''C'']" by (simp add: DFA_init_fields)
    then have u: "upper symb = symb" by (auto simp: upper_def upper_char_def)
    have t: "transitions (DFA_init '''') (0, symb) = Some 0" using m by (simp add: DFA_init_lookup)
    have s: "step_state (DFA_init '''') symb = 0"
      using m by (simp add: step_state_def u t p DFA_init_fields)
    have "(DFA_init '''')\<lparr>current_state := 0\<rparr> = DFA_init ''''" using p by simp
    then show ?thesis by (simp add: DFA_step_eq s t empty_pattern_never_accepts p)
  qed
  from a b c show ?thesis by blast
qed

theorem empty_pattern_never_matches_witness:
  "DFA_find_all_matches ((DFA_init '''')\<lparr>current_state := 0\<rparr>) ''ATGCATGC'' = Inr (DFA_init '''', []) \<and>
   ''A'' \<in> set (alphabet (DFA_init '''')) \<and>
   transitions (DFA_init '''') (0, ''A'') = Some 0 \<and>
   DFA_step (DFA_init '''') ''A'' = Inr (DFA_init '''', 0, False)"
proof -
  have h: "''A'' \<in> set (alphabet (DFA_init ''''))" by (simp add: DFA_init_fields)
  from empty_pattern_never_matches h show ?thesis by blast
qed

subsection \<open>Repeating a scan\<close>

text \<open>
  C10. After \<open>reset()\<close>, two calls of \<open>find_all_matches\<close> in a row on the same sequence
  both return, and return the same list, for the linear-chain engine and for the
  palindrome engine in any configuration.
\<close>

theorem find_all_matches_repeatable:
  "\<exists>e1 e2 ms. engine_find_all_matches (engine_reset e) S = Inr (e1, ms) \<and>
               engine_find_all_matches e1 S = Inr (e2, ms)"
proof (cases e)
  case (DFA_engine d)
  then show ?thesis by (simp add: DFA_find_all_matches_eq DFA_reset_idem)
next
  case (PDA_engine p)
  obtain ms where "PDA_find_all_matches (PDA_reset p) S = Inr ms"
    using PDA_find_all_matches_total by blast
  with PDA_engine show ?thesis by simp
qed

end
